theory Spec2Isabelle
  imports Main
begin

section \<open>The host's one-shot timers\<close>

text \<open>
  The hooks of \<^verbatim>\<open>src/src/index.ts\<close> keep a React state slot and a mutable reference
  \<^verbatim>\<open>timeoutRef\<close> that holds what \<^verbatim>\<open>setTimeout\<close> returned. The reference starts as
  \<^verbatim>\<open>undefined\<close> (\<^verbatim>\<open>useRef()\<close>), is overwritten with \<^verbatim>\<open>null\<close> by the code, and holds a
  timer handle in between. The code tests it with \<^verbatim>\<open>if (timeoutRef.current)\<close>, that is by
  JavaScript truthiness: \<^verbatim>\<open>undefined\<close>, \<^verbatim>\<open>null\<close> and the number 0 are falsy.
\<close>

datatype timeout_ref = Undefined | Null | Handle nat

fun truthy :: "timeout_ref \<Rightarrow> bool" where
  "truthy Undefined = False"
| "truthy Null = False"
| "truthy (Handle h) = (h \<noteq> 0)"

text \<open>
  The only callback the code ever passes to \<^verbatim>\<open>setTimeout\<close> is
  \<^verbatim>\<open>() => { setState(newState); timeoutRef.current = null; }\<close>, so a pending timer of the
  host is described by its handle, the clock value at which it is due, and the captured
  \<^verbatim>\<open>newState\<close>.
\<close>

record 'a timer =
  handle :: nat
  due :: nat
  newState :: 'a

text \<open>
  One instance of \<^verbatim>\<open>useDelayedState\<close> together with the part of the host it talks to:
  \<^item> \<open>state\<close>: the React state slot, \<open>writes\<close>: how many times \<^verbatim>\<open>setState\<close> was called on it;
  \<^item> \<open>timeoutRef\<close>: \<^verbatim>\<open>timeoutRef.current\<close>;
  \<^item> \<open>clock\<close>: the host's time in milliseconds, \<open>pending\<close>: the host's timers that were set
    and have neither fired nor been cleared, oldest first, \<open>fresh\<close>: the handle the next
    \<^verbatim>\<open>setTimeout\<close> returns.

  The host is modelled as an ideal timer queue over whole milliseconds: a timer set with
  delay \<open>d\<close> at clock \<open>c\<close> fires when the clock reaches \<open>c + d\<close>, and handles are positive
  integers handed out in increasing order. The functions of \<^verbatim>\<open>useDelayedState\<close> read the
  reference and their arguments only, never the \<^verbatim>\<open>state\<close> of a render, so they behave
  the same whichever render created them.
\<close>

record 'a delayed =
  state :: 'a
  writes :: nat
  timeoutRef :: timeout_ref
  clock :: nat
  pending :: "'a timer list"
  fresh :: nat

definition setTimeout :: "'a \<Rightarrow> nat \<Rightarrow> 'a delayed \<Rightarrow> nat \<times> 'a delayed" where
  "setTimeout v d w =
     (fresh w,
      w\<lparr>pending := pending w @ [\<lparr>handle = fresh w, due = clock w + d, newState = v\<rparr>],
        fresh := Suc (fresh w)\<rparr>)"

definition clearTimeout :: "nat \<Rightarrow> 'a delayed \<Rightarrow> 'a delayed" where
  "clearTimeout h w = w\<lparr>pending := filter (\<lambda>t. handle t \<noteq> h) (pending w)\<rparr>"

section \<open>useDelayedState\<close>

definition useDelayedState :: "'a \<Rightarrow> 'a delayed" where
  "useDelayedState initialState =
     \<lparr>state = initialState, writes = 0, timeoutRef = Undefined,
      clock = 0, pending = [], fresh = 1\<rparr>"

definition setState :: "'a \<Rightarrow> 'a delayed \<Rightarrow> 'a delayed" where
  "setState v w = w\<lparr>state := v, writes := Suc (writes w)\<rparr>"

definition cancelSetState :: "'a delayed \<Rightarrow> 'a delayed" where
  "cancelSetState w =
     (if truthy (timeoutRef w)
      then (case timeoutRef w of
              Handle h \<Rightarrow> (clearTimeout h w)\<lparr>timeoutRef := Null\<rparr>
            | _ \<Rightarrow> w)
      else w)"

text \<open>
  \<^verbatim>\<open>delayMS?: number\<close> is \<open>None\<close> when the argument is absent. The delays of the model
  are whole non-negative milliseconds. In the \<open>else\<close> branch the delay is present and not
  zero, so the \<open>None\<close> case below is never taken.
\<close>

definition setStateAfter :: "'a \<Rightarrow> nat option \<Rightarrow> 'a delayed \<Rightarrow> 'a delayed" where
  "setStateAfter v delayMS w =
     (let w1 = cancelSetState w in
      if delayMS = Some 0 \<or> delayMS = None then setState v w1
      else (case delayMS of
              Some d \<Rightarrow> (let (h, w2) = setTimeout v d w1 in w2\<lparr>timeoutRef := Handle h\<rparr>)
            | None \<Rightarrow> setState v w1))"

text \<open>The cleanup returned by the \<^verbatim>\<open>useEffect\<close> callback, run when the component unmounts.\<close>

definition unmount :: "'a delayed \<Rightarrow> 'a delayed" where
  "unmount w =
     (if truthy (timeoutRef w)
      then (case timeoutRef w of Handle h \<Rightarrow> clearTimeout h w | _ \<Rightarrow> w)
      else w)"

text \<open>
  Time. \<open>fire\<close> runs the callback of a timer; \<open>tick\<close> moves the clock by one millisecond
  and runs, oldest first, the callbacks of the timers that are due by then; \<open>advance n\<close>
  lets \<open>n\<close> milliseconds pass.
\<close>

definition fire :: "'a timer \<Rightarrow> 'a delayed \<Rightarrow> 'a delayed" where
  "fire t w = (setState (newState t) w)\<lparr>timeoutRef := Null\<rparr>"

definition tick :: "'a delayed \<Rightarrow> 'a delayed" where
  "tick w =
     (let c = Suc (clock w) in
      fold fire (filter (\<lambda>t. due t \<le> c) (pending w))
        (w\<lparr>clock := c, pending := filter (\<lambda>t. c < due t) (pending w)\<rparr>))"

fun advance :: "nat \<Rightarrow> 'a delayed \<Rightarrow> 'a delayed" where
  "advance 0 w = w"
| "advance (Suc n) w = advance n (tick w)"

text \<open>A run of the instance: calls of its two functions, interleaved with time passing.\<close>

datatype 'a event = SetStateAfter 'a "nat option" | CancelSetState | Elapse nat

fun step :: "'a event \<Rightarrow> 'a delayed \<Rightarrow> 'a delayed" where
  "step (SetStateAfter v d) w = setStateAfter v d w"
| "step CancelSetState w = cancelSetState w"
| "step (Elapse n) w = advance n w"

definition run :: "'a event list \<Rightarrow> 'a delayed \<Rightarrow> 'a delayed" where
  "run es w = fold step es w"

text \<open>
  What holds of the instance and the host between calls: either nothing is pending and the
  reference is falsy, or exactly one timer is pending, it is not yet due, and the reference
  holds its (truthy) handle.
\<close>

definition tidy :: "'a delayed \<Rightarrow> bool" where
  "tidy w =
     (case pending w of
        [] \<Rightarrow> \<not> truthy (timeoutRef w)
      | [t] \<Rightarrow> timeoutRef w = Handle (handle t) \<and> handle t \<noteq> 0 \<and> clock w < due t
      | _ \<Rightarrow> False)"

definition wellformed :: "'a delayed \<Rightarrow> bool" where
  "wellformed w = (fresh w \<noteq> 0 \<and> tidy w)"

section \<open>useFollowState\<close>

text \<open>
  \<^verbatim>\<open>useFollowState\<close> keeps a state slot of its own (\<open>currentState\<close>, with
  \<open>currentWrites\<close> counting the calls of its \<^verbatim>\<open>setState\<close>) and one instance of
  \<^verbatim>\<open>useDelayedState\<close>, whose state it returns as \<^verbatim>\<open>followState\<close>.
\<close>

record 'a follow =
  currentState :: 'a
  currentWrites :: nat
  follower :: "'a delayed"

definition useFollowState :: "'a \<Rightarrow> 'a follow" where
  "useFollowState initialState =
     \<lparr>currentState = initialState, currentWrites = 0,
      follower = useDelayedState initialState\<rparr>"

definition followState :: "'a follow \<Rightarrow> 'a" where
  "followState f = state (follower f)"

definition setCurrent :: "'a \<Rightarrow> 'a follow \<Rightarrow> 'a follow" where
  "setCurrent v f = f\<lparr>currentState := v, currentWrites := Suc (currentWrites f)\<rparr>"

definition setStateAndFollow :: "'a \<Rightarrow> nat option \<Rightarrow> 'a follow \<Rightarrow> 'a follow" where
  "setStateAndFollow v delayMS f =
     (let f1 = setCurrent v f in
      f1\<lparr>follower := setStateAfter v delayMS (follower f1)\<rparr>)"

text \<open>
  Each render of the component binds \<^verbatim>\<open>state\<close> and \<^verbatim>\<open>followState\<close> as constants and
  creates new closures over them. \<^verbatim>\<open>revertStateToFollow\<close> is the only function of the two
  hooks that reads such a constant: \<^verbatim>\<open>state !== followState\<close> and \<^verbatim>\<open>setState(followState)\<close>
  use the values of the render that created the closure, not the slots at the time of the
  call. A \<open>snapshot\<close> is what a render binds; \<open>render f\<close> is the snapshot of a render that
  happens in \<open>f\<close>. The slots of the model hold the value of the latest \<^verbatim>\<open>setState\<close> call,
  which is what the next render binds.
\<close>

record 'a snapshot =
  seenState :: 'a
  seenFollowState :: 'a

definition render :: "'a follow \<Rightarrow> 'a snapshot" where
  "render f = \<lparr>seenState = currentState f, seenFollowState = followState f\<rparr>"

definition revertStateToFollow :: "'a snapshot \<Rightarrow> 'a follow \<Rightarrow> 'a follow" where
  "revertStateToFollow r f =
     (let f1 = f\<lparr>follower := cancelSetState (follower f)\<rparr> in
      if seenState r \<noteq> seenFollowState r then setCurrent (seenFollowState r) f1 else f1)"

definition advanceFollow :: "nat \<Rightarrow> 'a follow \<Rightarrow> 'a follow" where
  "advanceFollow n f = f\<lparr>follower := advance n (follower f)\<rparr>"

text \<open>
  A run of the instance. A revert carries the snapshot its closure was created with; a run
  may use any snapshot, which covers the closures of every earlier render.
\<close>

datatype 'a follow_event =
  SetStateAndFollow 'a "nat option" | RevertStateToFollow "'a snapshot" | Wait nat

fun stepFollow :: "'a follow_event \<Rightarrow> 'a follow \<Rightarrow> 'a follow" where
  "stepFollow (SetStateAndFollow v d) f = setStateAndFollow v d f"
| "stepFollow (RevertStateToFollow r) f = revertStateToFollow r f"
| "stepFollow (Wait n) f = advanceFollow n f"

definition runFollow :: "'a follow_event list \<Rightarrow> 'a follow \<Rightarrow> 'a follow" where
  "runFollow es f = fold stepFollow es f"

text \<open>
  Between calls the follower is well formed and a pending timer carries the current state.
\<close>

definition on_target :: "'a follow \<Rightarrow> bool" where
  "on_target f =
     (wellformed (follower f) \<and>
      (case pending (follower f) of
         [] \<Rightarrow> True
       | t # _ \<Rightarrow> newState t = currentState f))"


section \<open>Basic facts about the operations\<close>

lemma wellformed_init: "wellformed (useDelayedState v)"
  by (simp add: wellformed_def tidy_def useDelayedState_def)

lemma cancel_fields:
  "state (cancelSetState w) = state w" "writes (cancelSetState w) = writes w"
  "clock (cancelSetState w) = clock w" "fresh (cancelSetState w) = fresh w"
  by (simp_all add: cancelSetState_def clearTimeout_def split: timeout_ref.splits)

lemma cancel_falsy: "\<not> truthy (timeoutRef (cancelSetState w))"
  by (simp add: cancelSetState_def clearTimeout_def split: timeout_ref.splits)

lemma cancel_pending: "tidy w \<Longrightarrow> pending (cancelSetState w) = []"
  by (auto simp add: tidy_def cancelSetState_def clearTimeout_def split: timeout_ref.splits list.splits)

lemma cancel_idle: "\<not> truthy (timeoutRef w) \<Longrightarrow> cancelSetState w = w"
  by (simp add: cancelSetState_def)

lemma cancel_wellformed: "wellformed w \<Longrightarrow> wellformed (cancelSetState w)"
  by (simp add: wellformed_def cancel_fields tidy_def[of "cancelSetState w"] cancel_pending cancel_falsy)

lemma set_now:
  "d = None \<or> d = Some 0 \<Longrightarrow> setStateAfter v d w = setState v (cancelSetState w)"
  by (auto simp add: setStateAfter_def Let_def)

lemma set_later:
  "0 < d \<Longrightarrow> setStateAfter v (Some d) w =
     (cancelSetState w)\<lparr>pending := pending (cancelSetState w) @
          [\<lparr>handle = fresh w, due = clock w + d, newState = v\<rparr>],
        fresh := Suc (fresh w), timeoutRef := Handle (fresh w)\<rparr>"
  by (simp add: setStateAfter_def Let_def setTimeout_def cancel_fields)

lemma set_wellformed: "wellformed w \<Longrightarrow> wellformed (setStateAfter v d w)"
proof (cases "d = None \<or> d = Some 0")
  case True
  assume wf: "wellformed w"
  then have "pending (cancelSetState w) = []" by (simp add: wellformed_def cancel_pending)
  with wf True show ?thesis
    using cancel_falsy[of w]
    by (auto simp add: set_now setState_def wellformed_def tidy_def cancel_fields)
next
  case False
  assume wf: "wellformed w"
  from False obtain n where d: "d = Some n" "0 < n" by (cases d) auto
  from wf have "pending (cancelSetState w) = []" by (simp add: wellformed_def cancel_pending)
  with wf d(2) show ?thesis unfolding d(1)
    by (simp add: set_later wellformed_def tidy_def cancel_fields)
qed

lemma tick_idle: "pending w = [] \<Longrightarrow> tick w = w\<lparr>clock := Suc (clock w)\<rparr>"
  by (simp add: tick_def Let_def)

lemma advance_idle: "pending w = [] \<Longrightarrow> advance n w = w\<lparr>clock := clock w + n\<rparr>"
  by (induction n arbitrary: w) (simp_all add: tick_idle)

lemma tick_wait:
  "pending w = [t] \<Longrightarrow> Suc (clock w) < due t \<Longrightarrow> tick w = w\<lparr>clock := Suc (clock w)\<rparr>"
  by (simp add: tick_def Let_def)

lemma tick_fire:
  "pending w = [t] \<Longrightarrow> due t \<le> Suc (clock w) \<Longrightarrow>
   tick w = w\<lparr>state := newState t, writes := Suc (writes w), timeoutRef := Null,
              clock := Suc (clock w), pending := []\<rparr>"
  by (simp add: tick_def Let_def fire_def setState_def)

lemma advance_wait:
  "pending w = [t] \<Longrightarrow> clock w + n < due t \<Longrightarrow> advance n w = w\<lparr>clock := clock w + n\<rparr>"
  by (induction n arbitrary: w) (simp_all add: tick_wait)

lemma advance_fire:
  "pending w = [t] \<Longrightarrow> clock w < due t \<Longrightarrow> due t \<le> clock w + n \<Longrightarrow>
   advance n w = w\<lparr>state := newState t, writes := Suc (writes w), timeoutRef := Null,
                   clock := clock w + n, pending := []\<rparr>"
proof (induction n arbitrary: w)
  case 0
  then show ?case by simp
next
  case (Suc n)
  show ?case
  proof (cases "due t \<le> Suc (clock w)")
    case True
    with Suc.prems show ?thesis
      by (simp add: tick_fire advance_idle)
  next
    case False
    with Suc.prems have "tick w = w\<lparr>clock := Suc (clock w)\<rparr>"
      by (simp add: tick_wait)
    with Suc False show ?thesis by simp
  qed
qed

lemma tick_wellformed: "wellformed w \<Longrightarrow> wellformed (tick w)"
  by (auto simp add: wellformed_def tidy_def tick_def Let_def fire_def setState_def split: list.splits)

lemma advance_wellformed: "wellformed w \<Longrightarrow> wellformed (advance n w)"
  by (induction n arbitrary: w) (simp_all add: tick_wellformed)

lemma step_wellformed: "wellformed w \<Longrightarrow> wellformed (step e w)"
  by (cases e) (simp_all add: set_wellformed cancel_wellformed advance_wellformed)

lemma run_wellformed: "wellformed w \<Longrightarrow> wellformed (run es w)"
  unfolding run_def by (induction es arbitrary: w) (simp_all add: step_wellformed)


lemma unmount_fields:
  "state (unmount w) = state w" "writes (unmount w) = writes w"
  by (simp_all add: unmount_def clearTimeout_def split: timeout_ref.splits)

lemma unmount_pending: "tidy w \<Longrightarrow> pending (unmount w) = []"
  by (auto simp add: tidy_def unmount_def clearTimeout_def split: timeout_ref.splits list.splits)

lemma set_later_pending:
  "wellformed w \<Longrightarrow> 0 < d \<Longrightarrow>
   pending (setStateAfter v (Some d) w) = [\<lparr>handle = fresh w, due = clock w + d, newState = v\<rparr>]"
  by (simp add: set_later wellformed_def cancel_pending)

lemma set_later_fields:
  "0 < d \<Longrightarrow> state (setStateAfter v (Some d) w) = state w"
  "0 < d \<Longrightarrow> writes (setStateAfter v (Some d) w) = writes w"
  "0 < d \<Longrightarrow> clock (setStateAfter v (Some d) w) = clock w"
  by (simp_all add: set_later cancel_fields)

lemma set_now_fields:
  "d = None \<or> d = Some 0 \<Longrightarrow> state (setStateAfter v d w) = v"
  "d = None \<or> d = Some 0 \<Longrightarrow> writes (setStateAfter v d w) = Suc (writes w)"
  "d = None \<or> d = Some 0 \<Longrightarrow> tidy w \<Longrightarrow> pending (setStateAfter v d w) = []"
  "d = None \<or> d = Some 0 \<Longrightarrow> \<not> truthy (timeoutRef (setStateAfter v d w))"
  using cancel_falsy[of w]
  by (simp_all add: set_now setState_def cancel_fields cancel_pending)

text \<open>What an observer sees \<open>n\<close> milliseconds after a delayed set.\<close>

lemma after_set_later:
  assumes "wellformed w" "0 < d"
  shows "state (advance n (setStateAfter v (Some d) w)) = (if n < d then state w else v)"
    and "writes (advance n (setStateAfter v (Some d) w)) = (if n < d then writes w else Suc (writes w))"
    and "pending (advance n (setStateAfter v (Some d) w)) =
           (if n < d then [\<lparr>handle = fresh w, due = clock w + d, newState = v\<rparr>] else [])"
    and "d \<le> n \<Longrightarrow> timeoutRef (advance n (setStateAfter v (Some d) w)) = Null"
proof -
  let ?w = "setStateAfter v (Some d) w"
  let ?t = "\<lparr>handle = fresh w, due = clock w + d, newState = v\<rparr>"
  have p: "pending ?w = [?t]" using assms by (rule set_later_pending)
  have c: "clock ?w = clock w" using assms(2) by (rule set_later_fields)
  have w: "n < d \<Longrightarrow> advance n ?w = ?w\<lparr>clock := clock ?w + n\<rparr>"
    using advance_wait[OF p, of n] c by simp
  have f: "d \<le> n \<Longrightarrow> advance n ?w = ?w\<lparr>state := newState ?t, writes := Suc (writes ?w),
        timeoutRef := Null, clock := clock ?w + n, pending := []\<rparr>"
    using advance_fire[OF p, of n] c assms(2) by simp
  show "state (advance n ?w) = (if n < d then state w else v)"
    using w f assms(2) by (cases "n < d") (simp_all add: set_later_fields)
  show "writes (advance n ?w) = (if n < d then writes w else Suc (writes w))"
    using w f assms(2) by (cases "n < d") (simp_all add: set_later_fields)
  show "pending (advance n ?w) = (if n < d then [?t] else [])"
    using w f p by (cases "n < d") simp_all
  show "d \<le> n \<Longrightarrow> timeoutRef (advance n ?w) = Null"
    using f by simp
qed

lemma after_idle:
  "pending w = [] \<Longrightarrow> state (advance n w) = state w"
  "pending w = [] \<Longrightarrow> writes (advance n w) = writes w"
  "pending w = [] \<Longrightarrow> pending (advance n w) = []"
  "pending w = [] \<Longrightarrow> timeoutRef (advance n w) = timeoutRef w"
  by (simp_all add: advance_idle)

section \<open>Properties of useDelayedState\<close>

text \<open>
  Claim C1 (last write wins). In a well-formed state \<open>w\<close>, after
  \<open>setStateAfter v1 (Some d1)\<close> with \<open>d1 > 0\<close>, followed \<open>e < d1\<close> milliseconds later by
  \<open>setStateAfter v2 d2\<close>: up to the second call the state is the one of \<open>w\<close> and
  \<^verbatim>\<open>setState\<close> has not been called; \<open>n\<close> milliseconds after the second call the state is
  still the one of \<open>w\<close> while \<open>n\<close> is below the second delay (0 when absent) and is \<open>v2\<close>
  from then on, and \<^verbatim>\<open>setState\<close> has been called exactly once by then: the write of
  \<open>v1\<close> never happens.
\<close>

theorem last_write_wins:
  assumes "wellformed w" and "0 < d1" and "e < d1"
  shows "(m \<le> e \<longrightarrow>
            state (advance m (setStateAfter v1 (Some d1) w)) = state w \<and>
            writes (advance m (setStateAfter v1 (Some d1) w)) = writes w) \<and>
         state (advance n (setStateAfter v2 d2 (advance e (setStateAfter v1 (Some d1) w)))) =
           (if n < (case d2 of None \<Rightarrow> 0 | Some d \<Rightarrow> d) then state w else v2) \<and>
         writes (advance n (setStateAfter v2 d2 (advance e (setStateAfter v1 (Some d1) w)))) =
           (if n < (case d2 of None \<Rightarrow> 0 | Some d \<Rightarrow> d) then writes w else Suc (writes w))"
proof -
  let ?w1 = "setStateAfter v1 (Some d1) w"
  let ?wa = "advance e ?w1"
  have before: "state (advance k ?w1) = state w \<and> writes (advance k ?w1) = writes w"
    if "k \<le> e" for k
    using that assms by (simp add: after_set_later)
  have wf: "wellformed ?wa"
    using assms(1) by (simp add: set_wellformed advance_wellformed)
  have sa: "state ?wa = state w" and wa: "writes ?wa = writes w"
    using before[of e] by simp_all
  have after: "state (advance n (setStateAfter v2 d2 ?wa)) =
           (if n < (case d2 of None \<Rightarrow> 0 | Some d \<Rightarrow> d) then state w else v2) \<and>
         writes (advance n (setStateAfter v2 d2 ?wa)) =
           (if n < (case d2 of None \<Rightarrow> 0 | Some d \<Rightarrow> d) then writes w else Suc (writes w))"
  proof (cases "d2 = None \<or> d2 = Some 0")
    case True
    then have "pending (setStateAfter v2 d2 ?wa) = []"
      using wf by (simp add: set_now_fields wellformed_def)
    then show ?thesis
      using True sa wa by (auto simp add: after_idle set_now_fields)
  next
    case False
    then obtain d where d: "d2 = Some d" "0 < d" by (cases d2) auto
    show ?thesis unfolding d(1)
      using wf d(2) sa wa by (simp add: after_set_later)
  qed
  show ?thesis using before[of m] after by simp
qed

theorem last_write_wins_witness:
  "wellformed (useDelayedState (0::nat)) \<and>
   state (advance 50 (setStateAfter 1 (Some 100) (useDelayedState (0::nat)))) = 0 \<and>
   state (advance 50 (setStateAfter 2 (Some 100)
            (advance 50 (setStateAfter 1 (Some 100) (useDelayedState (0::nat)))))) = 0 \<and>
   state (advance 100 (setStateAfter 2 (Some 100)
            (advance 50 (setStateAfter 1 (Some 100) (useDelayedState (0::nat)))))) = 2"
  using last_write_wins [of "useDelayedState (0::nat)" 100 50 50 1 50 2 "Some 100"]
        last_write_wins [of "useDelayedState (0::nat)" 100 50 50 1 100 2 "Some 100"]
  by (simp add: wellformed_def tidy_def useDelayedState_def)

text \<open>
  Claim C4 (single pending timer). After any sequence of \<open>setStateAfter\<close> and
  \<open>cancelSetState\<close> calls and of time passing, started from a fresh instance, the host
  holds at most one timer of the instance; \<open>cancelSetState\<close>, with which every
  \<open>setStateAfter\<close> begins, leaves none, and a further \<open>setStateAfter\<close> leaves at most one.
\<close>

theorem single_pending_timer:
  "length (pending (run es (useDelayedState v))) \<le> 1 \<and>
   pending (cancelSetState (run es (useDelayedState v))) = [] \<and>
   length (pending (setStateAfter x d (run es (useDelayedState v)))) \<le> 1"
proof -
  let ?w = "run es (useDelayedState v)"
  have wf: "wellformed ?w"
    by (simp add: run_wellformed wellformed_init)
  have one: "length (pending u) \<le> 1" if "wellformed u" for u :: "'a delayed"
    using that by (auto simp add: wellformed_def tidy_def split: list.splits)
  have "wellformed (setStateAfter x d ?w)" using wf by (rule set_wellformed)
  then show ?thesis using wf one
    by (simp add: cancel_pending wellformed_def)
qed

theorem single_pending_timer_witness:
  "length (pending (run [SetStateAfter 1 (Some 100), Elapse 50, SetStateAfter 2 (Some 100)]
      (useDelayedState (0::nat)))) \<le> 1 \<and>
   pending (run [SetStateAfter 1 (Some 100), Elapse 50, SetStateAfter 2 (Some 100)]
      (useDelayedState (0::nat))) =
     [\<lparr>handle = 2, due = 150, newState = 2\<rparr>]"
proof -
  have "pending (run [SetStateAfter 1 (Some 100), Elapse 50, SetStateAfter 2 (Some 100)]
      (useDelayedState (0::nat))) = [\<lparr>handle = 2, due = 150, newState = 2\<rparr>]"
    by code_simp
  then show ?thesis
    using single_pending_timer
      [of "[SetStateAfter 1 (Some 100), Elapse 50, SetStateAfter 2 (Some 100)]" "0::nat" 0 None]
    by simp
qed

text \<open>
  Claim C5 (zero delay is absent delay). From every state, \<open>setStateAfter v (Some 0)\<close> and
  \<open>setStateAfter v None\<close> give the same state; the state slot holds \<open>v\<close> at once, by one
  call of \<^verbatim>\<open>setState\<close>, the reference is falsy, and from a well-formed state no timer
  is left pending.
\<close>

theorem zero_delay_is_absent_delay:
  "setStateAfter v (Some 0) w = setStateAfter v None w \<and>
   state (setStateAfter v None w) = v \<and>
   writes (setStateAfter v None w) = Suc (writes w) \<and>
   \<not> truthy (timeoutRef (setStateAfter v None w)) \<and>
   (wellformed w \<longrightarrow> pending (setStateAfter v None w) = [])"
proof -
  have "setStateAfter v (Some 0) w = setStateAfter v None w"
    by (simp add: set_now)
  then show ?thesis
    by (simp add: set_now_fields wellformed_def)
qed

theorem zero_delay_is_absent_delay_witness:
  "wellformed (setStateAfter (1::nat) (Some 100) (useDelayedState 0)) \<and>
   pending (setStateAfter (1::nat) (Some 100) (useDelayedState 0)) \<noteq> [] \<and>
   setStateAfter 2 (Some 0) (setStateAfter (1::nat) (Some 100) (useDelayedState 0)) =
     setStateAfter 2 None (setStateAfter (1::nat) (Some 100) (useDelayedState 0)) \<and>
   state (setStateAfter 2 None (setStateAfter (1::nat) (Some 100) (useDelayedState 0))) = 2 \<and>
   pending (setStateAfter 2 None (setStateAfter (1::nat) (Some 100) (useDelayedState 0))) = []"
proof -
  have wf: "wellformed (setStateAfter (1::nat) (Some 100) (useDelayedState 0))"
    by (simp add: set_wellformed wellformed_init)
  have ne: "pending (setStateAfter (1::nat) (Some 100) (useDelayedState 0)) \<noteq> []"
    by (simp add: set_later_pending wellformed_init)
  show ?thesis
    using wf ne
      zero_delay_is_absent_delay [of 2 "setStateAfter (1::nat) (Some 100) (useDelayedState 0)"]
    by simp
qed

text \<open>
  Claim C10 (cancel is idempotent). In every state, calling \<open>cancelSetState\<close> twice gives
  the same state as calling it once.
\<close>

theorem cancel_idempotent:
  "cancelSetState (cancelSetState w) = cancelSetState w"
  by (simp add: cancel_idle cancel_falsy)

theorem cancel_idempotent_witness:
  "cancelSetState (cancelSetState (setStateAfter (1::nat) (Some 100) (useDelayedState 0))) =
     cancelSetState (setStateAfter (1::nat) (Some 100) (useDelayedState 0)) \<and>
   cancelSetState (setStateAfter (1::nat) (Some 100) (useDelayedState 0)) =
     \<lparr>state = 0, writes = 0, timeoutRef = Null, clock = 0, pending = [], fresh = 2\<rparr>"
  using cancel_idempotent [of "setStateAfter (1::nat) (Some 100) (useDelayedState 0)"]
  by (simp add: set_later cancelSetState_def clearTimeout_def useDelayedState_def)

text \<open>
  Claim C6 (cancel is effective and keeps the value). In a well-formed state,
  \<open>cancelSetState\<close> leaves the state slot alone and calls no \<^verbatim>\<open>setState\<close>, leaves no timer
  pending and the reference falsy, and changes nothing at all when no timer was pending.
  After \<open>setStateAfter v (Some d)\<close> with \<open>d > 0\<close> and \<open>cancelSetState\<close> \<open>e < d\<close>
  milliseconds later, the state stays what it was however much time passes.
\<close>

theorem cancel_is_effective:
  assumes "wellformed w"
  shows "state (cancelSetState w) = state w \<and>
         writes (cancelSetState w) = writes w \<and>
         pending (cancelSetState w) = [] \<and>
         \<not> truthy (timeoutRef (cancelSetState w)) \<and>
         (pending w = [] \<longrightarrow> cancelSetState w = w) \<and>
         (0 < d \<and> e < d \<longrightarrow>
            state (advance n (cancelSetState (advance e (setStateAfter v (Some d) w)))) = state w \<and>
            writes (advance n (cancelSetState (advance e (setStateAfter v (Some d) w)))) = writes w)"
proof -
  have idle: "cancelSetState w = w" if "pending w = []"
    using that assms by (simp add: wellformed_def tidy_def cancel_idle)
  have later: "state (advance n (cancelSetState (advance e (setStateAfter v (Some d) w)))) = state w \<and>
      writes (advance n (cancelSetState (advance e (setStateAfter v (Some d) w)))) = writes w"
    if d: "0 < d" "e < d"
  proof -
    let ?wa = "advance e (setStateAfter v (Some d) w)"
    have "wellformed ?wa"
      using assms by (simp add: set_wellformed advance_wellformed)
    then have "pending (cancelSetState ?wa) = []"
      by (simp add: wellformed_def cancel_pending)
    then show ?thesis
      using assms d by (simp add: after_idle cancel_fields after_set_later)
  qed
  show ?thesis
    using assms idle later
    by (simp add: cancel_fields cancel_falsy cancel_pending wellformed_def)
qed

theorem cancel_is_effective_witness:
  "wellformed (useDelayedState ''a'') \<and>
   pending (advance 50 (setStateAfter ''b'' (Some 100) (useDelayedState ''a''))) \<noteq> [] \<and>
   state (advance 50 (cancelSetState (advance 50
            (setStateAfter ''b'' (Some 100) (useDelayedState ''a''))))) = ''a'' \<and>
   state (advance 500 (cancelSetState (advance 50
            (setStateAfter ''b'' (Some 100) (useDelayedState ''a''))))) = ''a'' \<and>
   cancelSetState (useDelayedState ''a'') = useDelayedState ''a''"
proof -
  have wf: "wellformed (useDelayedState ''a'')"
    by (simp add: wellformed_def tidy_def useDelayedState_def)
  have ne: "pending (advance 50 (setStateAfter ''b'' (Some 100) (useDelayedState ''a''))) \<noteq> []"
    by (simp add: after_set_later wf)
  have em: "pending (useDelayedState ''a'') = []"
    by (simp add: useDelayedState_def)
  have st: "state (useDelayedState ''a'') = ''a''"
    by (simp add: useDelayedState_def)
  show ?thesis
    using wf ne em st
      cancel_is_effective [OF wf, of 100 50 50 "''b''"]
      cancel_is_effective [OF wf, of 100 50 500 "''b''"]
    by simp
qed

text \<open>
  Claim C7 (teardown silences). With a delayed update scheduled from a well-formed state
  and still pending after \<open>e < d\<close> milliseconds, the cleanup of the effect removes the timer
  from the host, and however much time passes afterwards the state slot keeps its value
  and \<^verbatim>\<open>setState\<close> is not called.
\<close>

theorem teardown_silences:
  assumes "wellformed w" and "0 < d" and "e < d"
  shows "pending (advance e (setStateAfter v (Some d) w)) \<noteq> [] \<and>
         pending (unmount (advance e (setStateAfter v (Some d) w))) = [] \<and>
         state (advance n (unmount (advance e (setStateAfter v (Some d) w)))) = state w \<and>
         writes (advance n (unmount (advance e (setStateAfter v (Some d) w)))) = writes w"
proof -
  let ?wa = "advance e (setStateAfter v (Some d) w)"
  have "wellformed ?wa"
    using assms(1) by (simp add: set_wellformed advance_wellformed)
  then have "pending (unmount ?wa) = []"
    by (simp add: wellformed_def unmount_pending)
  then show ?thesis
    using assms by (simp add: after_idle unmount_fields after_set_later)
qed

theorem teardown_silences_witness:
  "wellformed (useDelayedState ''a'') \<and>
   pending (unmount (advance 50 (setStateAfter ''b'' (Some 100) (useDelayedState ''a'')))) = [] \<and>
   state (advance 50 (unmount (advance 50
            (setStateAfter ''b'' (Some 100) (useDelayedState ''a''))))) = ''a'' \<and>
   writes (advance 50 (unmount (advance 50
            (setStateAfter ''b'' (Some 100) (useDelayedState ''a''))))) = 0"
proof -
  have wf: "wellformed (useDelayedState ''a'')"
    by (simp add: wellformed_def tidy_def useDelayedState_def)
  show ?thesis
    using wf teardown_silences [OF wf, of 100 50 "''b''" 50]
    by (simp add: useDelayedState_def)
qed

text \<open>
  Claim C8 (a delayed set defers the write). In a well-formed state and for \<open>d > 0\<close>,
  \<open>setStateAfter v (Some d)\<close> leaves the state slot alone and calls no \<^verbatim>\<open>setState\<close>; it
  only leaves one timer, due \<open>d\<close> milliseconds later and carrying \<open>v\<close>, with its handle in
  the reference. Nothing changes while less than \<open>d\<close> milliseconds have passed; once \<open>d\<close>
  milliseconds have passed the timer has fired: the state is \<open>v\<close>, written by one call of
  \<^verbatim>\<open>setState\<close>, the reference is \<^verbatim>\<open>null\<close> and no timer is pending.
\<close>

theorem delayed_set_defers_write:
  assumes "wellformed w" and "0 < d"
  shows "state (setStateAfter v (Some d) w) = state w \<and>
         writes (setStateAfter v (Some d) w) = writes w \<and>
         pending (setStateAfter v (Some d) w) =
           [\<lparr>handle = fresh w, due = clock w + d, newState = v\<rparr>] \<and>
         timeoutRef (setStateAfter v (Some d) w) = Handle (fresh w) \<and>
         (n < d \<longrightarrow> state (advance n (setStateAfter v (Some d) w)) = state w \<and>
                    writes (advance n (setStateAfter v (Some d) w)) = writes w) \<and>
         state (advance d (setStateAfter v (Some d) w)) = v \<and>
         writes (advance d (setStateAfter v (Some d) w)) = Suc (writes w) \<and>
         timeoutRef (advance d (setStateAfter v (Some d) w)) = Null \<and>
         pending (advance d (setStateAfter v (Some d) w)) = []"
proof -
  have "timeoutRef (setStateAfter v (Some d) w) = Handle (fresh w)"
    using assms(2) by (simp add: set_later)
  then show ?thesis
    using assms by (simp add: set_later_fields set_later_pending after_set_later)
qed

theorem delayed_set_defers_write_witness:
  "wellformed (useDelayedState ''a'') \<and>
   state (setStateAfter ''b'' (Some 100) (useDelayedState ''a'')) = ''a'' \<and>
   pending (setStateAfter ''b'' (Some 100) (useDelayedState ''a'')) =
     [\<lparr>handle = 1, due = 100, newState = ''b''\<rparr>] \<and>
   state (advance 99 (setStateAfter ''b'' (Some 100) (useDelayedState ''a''))) = ''a'' \<and>
   state (advance 100 (setStateAfter ''b'' (Some 100) (useDelayedState ''a''))) = ''b'' \<and>
   timeoutRef (advance 100 (setStateAfter ''b'' (Some 100) (useDelayedState ''a''))) = Null"
proof -
  have wf: "wellformed (useDelayedState ''a'')"
    by (simp add: wellformed_def tidy_def useDelayedState_def)
  show ?thesis
    using wf delayed_set_defers_write [OF wf, of 100 "''b''" 99]
    by (simp add: useDelayedState_def)
qed

section \<open>Properties of useFollowState\<close>

lemma advance_cases:
  assumes "wellformed w"
  shows "(pending (advance n w) = pending w \<and> state (advance n w) = state w) \<or>
         (\<exists>t. pending w = [t] \<and> pending (advance n w) = [] \<and> state (advance n w) = newState t)"
proof (cases "pending w")
  case Nil
  then show ?thesis by (simp add: advance_idle)
next
  case (Cons t ts)
  with assms have one: "pending w = [t]" and lt: "clock w < due t"
    by (auto simp add: wellformed_def tidy_def split: list.splits)
  show ?thesis
  proof (cases "clock w + n < due t")
    case True
    with one show ?thesis by (simp add: advance_wait)
  next
    case False
    with one lt show ?thesis by (simp add: advance_fire)
  qed
qed

lemma on_target_init: "on_target (useFollowState v)"
proof -
  have "pending (useDelayedState v) = []"
    by (simp add: useDelayedState_def)
  then show ?thesis
    by (simp add: on_target_def useFollowState_def wellformed_init)
qed

lemma on_target_set:
  assumes "on_target f"
  shows "on_target (setStateAndFollow v d f)"
proof -
  have wf: "wellformed (follower f)" using assms by (simp add: on_target_def)
  show ?thesis
  proof (cases "d = None \<or> d = Some 0")
    case True
    from wf have "tidy (follower f)" by (simp add: wellformed_def)
    with wf True show ?thesis
      by (simp add: on_target_def setStateAndFollow_def setCurrent_def
          set_wellformed set_now_fields)
  next
    case False
    then obtain k where k: "d = Some k" "0 < k" by (cases d) auto
    with wf show ?thesis
      by (simp add: on_target_def setStateAndFollow_def setCurrent_def
          set_wellformed set_later_pending)
  qed
qed

text \<open>A revert clears the timer whatever its closure compares.\<close>

lemma on_target_revert:
  assumes "on_target f"
  shows "on_target (revertStateToFollow r f)"
proof -
  have wf: "wellformed (follower f)" using assms by (simp add: on_target_def)
  then have "pending (cancelSetState (follower f)) = []"
    by (simp add: wellformed_def cancel_pending)
  with wf show ?thesis
    by (simp add: on_target_def revertStateToFollow_def Let_def setCurrent_def
        cancel_wellformed)
qed

lemma on_target_advance:
  assumes "on_target f"
  shows "on_target (advanceFollow n f)"
proof -
  have wf: "wellformed (follower f)" using assms by (simp add: on_target_def)
  from advance_cases[OF wf, of n] assms wf show ?thesis
    by (auto simp add: on_target_def advanceFollow_def advance_wellformed
        split: list.splits)
qed

lemma on_target_step: "on_target f \<Longrightarrow> on_target (stepFollow e f)"
  by (cases e) (simp_all add: on_target_set on_target_revert on_target_advance)

lemma on_target_run: "on_target f \<Longrightarrow> on_target (runFollow es f)"
  unfolding runFollow_def by (induction es arbitrary: f) (simp_all add: on_target_step)

lemma on_target_later:
  assumes "on_target f"
  shows "followState (advanceFollow n f) = followState f \<or>
         followState (advanceFollow n f) = currentState f"
proof -
  have wf: "wellformed (follower f)" using assms by (simp add: on_target_def)
  from advance_cases[OF wf, of n] assms show ?thesis
    by (auto simp add: on_target_def advanceFollow_def followState_def split: list.splits)
qed

text \<open>
  Claim C9 (a pending follow timer targets the current state). After any sequence of
  \<open>setStateAndFollow\<close> and \<open>revertStateToFollow\<close> calls and of time passing, started from a
  fresh instance, every pending timer of the follower carries the current state, so its
  callback makes the following state equal to the current one; and however much time
  passes next, the following state is either what it was or the current state, never a
  third value.
\<close>

theorem follow_timer_targets_current:
  "(\<forall>t \<in> set (pending (follower (runFollow es (useFollowState v)))).
      newState t = currentState (runFollow es (useFollowState v)) \<and>
      state (fire t (follower (runFollow es (useFollowState v)))) =
        currentState (runFollow es (useFollowState v))) \<and>
   (followState (advanceFollow n (runFollow es (useFollowState v))) =
      followState (runFollow es (useFollowState v)) \<or>
    followState (advanceFollow n (runFollow es (useFollowState v))) =
      currentState (runFollow es (useFollowState v)))"
proof -
  let ?f = "runFollow es (useFollowState v)"
  have c: "on_target ?f" by (simp add: on_target_run on_target_init)
  then have "\<forall>t \<in> set (pending (follower ?f)). newState t = currentState ?f"
    by (auto simp add: on_target_def wellformed_def tidy_def split: list.splits)
  then show ?thesis
    using on_target_later[OF c, of n] by (simp add: fire_def setState_def)
qed

theorem follow_timer_targets_current_witness:
  "pending (follower (runFollow [SetStateAndFollow ''h'' (Some 10), Wait 1,
       SetStateAndFollow ''hi'' (Some 10), Wait 5] (useFollowState ''''))) =
     [\<lparr>handle = 2, due = 11, newState = ''hi''\<rparr>] \<and>
   currentState (runFollow [SetStateAndFollow ''h'' (Some 10), Wait 1,
       SetStateAndFollow ''hi'' (Some 10), Wait 5] (useFollowState '''')) = ''hi'' \<and>
   state (fire \<lparr>handle = 2, due = 11, newState = ''hi''\<rparr>
       (follower (runFollow [SetStateAndFollow ''h'' (Some 10), Wait 1,
          SetStateAndFollow ''hi'' (Some 10), Wait 5] (useFollowState '''')))) = ''hi''"
proof -
  let ?f = "runFollow [SetStateAndFollow ''h'' (Some 10), Wait 1,
       SetStateAndFollow ''hi'' (Some 10), Wait 5] (useFollowState '''')"
  have p: "pending (follower ?f) = [\<lparr>handle = 2, due = 11, newState = ''hi''\<rparr>]"
    by code_simp
  show ?thesis
    using p
      follow_timer_targets_current [of "[SetStateAndFollow ''h'' (Some 10), Wait 1,
       SetStateAndFollow ''hi'' (Some 10), Wait 5]" "''''" 0]
    by simp
qed

text \<open>
  Claim C3 (follow diverges, then converges). With a well-formed follower and \<open>d > 0\<close>,
  \<open>setStateAndFollow v (Some d)\<close> makes the current state \<open>v\<close> at once and leaves the
  following state as it was; with no further call, \<open>n\<close> milliseconds later the current
  state is still \<open>v\<close> and the following state is the prior one while \<open>n < d\<close> and \<open>v\<close> from
  \<open>d\<close> milliseconds on.
\<close>

theorem follow_diverges_then_converges:
  assumes "wellformed (follower f)" and "0 < d"
  shows "currentState (setStateAndFollow v (Some d) f) = v \<and>
         followState (setStateAndFollow v (Some d) f) = followState f \<and>
         currentState (advanceFollow n (setStateAndFollow v (Some d) f)) = v \<and>
         followState (advanceFollow n (setStateAndFollow v (Some d) f)) =
           (if n < d then followState f else v)"
  using assms
  by (simp add: setStateAndFollow_def setCurrent_def advanceFollow_def followState_def
      set_later_fields after_set_later)

theorem follow_diverges_then_converges_witness:
  "wellformed (follower (useFollowState '''')) \<and>
   currentState (setStateAndFollow ''hi'' (Some 1000) (useFollowState '''')) = ''hi'' \<and>
   followState (setStateAndFollow ''hi'' (Some 1000) (useFollowState '''')) = '''' \<and>
   followState (advanceFollow 999 (setStateAndFollow ''hi'' (Some 1000) (useFollowState ''''))) = '''' \<and>
   followState (advanceFollow 1000 (setStateAndFollow ''hi'' (Some 1000) (useFollowState ''''))) = ''hi''"
proof -
  have wf: "wellformed (follower (useFollowState ''''))"
    by (simp add: useFollowState_def wellformed_init)
  have st: "followState (useFollowState '''') = ''''"
    by (simp add: useFollowState_def followState_def useDelayedState_def)
  show ?thesis
    using wf st
      follow_diverges_then_converges [OF wf, of 1000 "''hi''" 999]
      follow_diverges_then_converges [OF wf, of 1000 "''hi''" 1000]
    by simp
qed

text \<open>
  What a revert does after a delayed \<open>setStateAndFollow\<close>, for any snapshot \<open>r\<close> its closure
  may hold: the timer is cleared and the following state stays what it was, but the
  current state is reset only if the two values of the snapshot differ, and then to the
  snapshot's following value.
\<close>

lemma revert_after_set:
  assumes "wellformed (follower f)" and "0 < d" and "e < d"
  shows "render (advanceFollow e (setStateAndFollow v2 (Some d) f)) =
           \<lparr>seenState = v2, seenFollowState = followState f\<rparr>"
    and "pending (follower (advanceFollow e (setStateAndFollow v2 (Some d) f))) \<noteq> []"
    and "pending (follower (revertStateToFollow r
           (advanceFollow e (setStateAndFollow v2 (Some d) f)))) = []"
    and "currentState (advanceFollow n (revertStateToFollow r
           (advanceFollow e (setStateAndFollow v2 (Some d) f)))) =
           (if seenState r \<noteq> seenFollowState r then seenFollowState r else v2)"
    and "followState (advanceFollow n (revertStateToFollow r
           (advanceFollow e (setStateAndFollow v2 (Some d) f)))) = followState f"
    and "currentWrites (advanceFollow n (revertStateToFollow r
           (advanceFollow e (setStateAndFollow v2 (Some d) f)))) =
           Suc (currentWrites f) + (if seenState r \<noteq> seenFollowState r then 1 else 0)"
    and "writes (follower (advanceFollow n (revertStateToFollow r
           (advanceFollow e (setStateAndFollow v2 (Some d) f))))) = writes (follower f)"
proof -
  let ?w = "advance e (setStateAfter v2 (Some d) (follower f))"
  let ?g = "advanceFollow e (setStateAndFollow v2 (Some d) f)"
  have g: "?g = f\<lparr>currentState := v2, currentWrites := Suc (currentWrites f), follower := ?w\<rparr>"
    by (simp add: advanceFollow_def setStateAndFollow_def setCurrent_def)
  have sw: "state ?w = state (follower f)" and ww: "writes ?w = writes (follower f)"
    and pw: "pending ?w \<noteq> []"
    using assms by (simp_all add: after_set_later)
  have "wellformed ?w"
    using assms(1) by (simp add: set_wellformed advance_wellformed)
  then have pc: "pending (cancelSetState ?w) = []"
    by (simp add: wellformed_def cancel_pending)
  let ?r = "revertStateToFollow r ?g"
  have fr: "follower ?r = cancelSetState ?w"
    unfolding g by (simp add: revertStateToFollow_def Let_def setCurrent_def)
  have cr: "currentState ?r = (if seenState r \<noteq> seenFollowState r then seenFollowState r else v2)"
    unfolding g by (simp add: revertStateToFollow_def Let_def setCurrent_def)
  have wr: "currentWrites ?r =
      Suc (currentWrites f) + (if seenState r \<noteq> seenFollowState r then 1 else 0)"
    unfolding g by (simp add: revertStateToFollow_def Let_def setCurrent_def)
  have later: "follower (advanceFollow n ?r) = advance n (cancelSetState ?w)"
    "currentState (advanceFollow n ?r) = currentState ?r"
    "currentWrites (advanceFollow n ?r) = currentWrites ?r"
    using fr by (simp_all add: advanceFollow_def)
  show "render ?g = \<lparr>seenState = v2, seenFollowState = followState f\<rparr>"
    unfolding g using sw by (simp add: render_def followState_def)
  show "pending (follower ?g) \<noteq> []"
    unfolding g using pw by simp
  show "pending (follower ?r) = []"
    using fr pc by simp
  show "currentState (advanceFollow n ?r) =
      (if seenState r \<noteq> seenFollowState r then seenFollowState r else v2)"
    using later(2) cr by simp
  show "followState (advanceFollow n ?r) = followState f"
    unfolding followState_def later(1) using pc sw by (simp add: after_idle cancel_fields)
  show "currentWrites (advanceFollow n ?r) =
      Suc (currentWrites f) + (if seenState r \<noteq> seenFollowState r then 1 else 0)"
    using later(3) wr by simp
  show "writes (follower (advanceFollow n ?r)) = writes (follower f)"
    unfolding later(1) using pc ww by (simp add: after_idle cancel_fields)
qed

text \<open>
  With the closure of the latest render, the revert brings the current state back to the
  unchanged following state, by one write when the two differ and none otherwise, and
  nothing changes afterwards.
\<close>

lemma revert_from_latest_render:
  assumes "wellformed (follower f)" and "0 < d" and "e < d"
  shows "currentState (advanceFollow n
           (revertStateToFollow (render (advanceFollow e (setStateAndFollow v2 (Some d) f)))
             (advanceFollow e (setStateAndFollow v2 (Some d) f)))) = followState f \<and>
         followState (advanceFollow n
           (revertStateToFollow (render (advanceFollow e (setStateAndFollow v2 (Some d) f)))
             (advanceFollow e (setStateAndFollow v2 (Some d) f)))) = followState f \<and>
         currentWrites (advanceFollow n
           (revertStateToFollow (render (advanceFollow e (setStateAndFollow v2 (Some d) f)))
             (advanceFollow e (setStateAndFollow v2 (Some d) f)))) =
           Suc (currentWrites f) + (if v2 \<noteq> followState f then 1 else 0) \<and>
         writes (follower (advanceFollow n
           (revertStateToFollow (render (advanceFollow e (setStateAndFollow v2 (Some d) f)))
             (advanceFollow e (setStateAndFollow v2 (Some d) f))))) = writes (follower f)"
  using assms by (simp add: revert_after_set)

text \<open>
  Claim C2 (revert semantics) at the closure of an earlier render. Start from
  \<^verbatim>\<open>useFollowState("")\<close> and take \<^verbatim>\<open>setStateAndFollow\<close> and \<^verbatim>\<open>revertStateToFollow\<close> from the
  first render, where \<^verbatim>\<open>state\<close> and \<^verbatim>\<open>followState\<close> are both \<^verbatim>\<open>""\<close>. Calling
  \<^verbatim>\<open>setStateAndFollow("hi", 1000)\<close> and then that \<^verbatim>\<open>revertStateToFollow\<close>, in the same
  handler or 500 milliseconds later, clears the timer and compares \<^verbatim>\<open>"" !== ""\<close>: nothing
  is written, so at every later time the current state is \<^verbatim>\<open>"hi"\<close> and the following state
  is \<^verbatim>\<open>""\<close>. The claim, and the function's documentation, have the current state set back to
  the following state \<^verbatim>\<open>""\<close>.
\<close>

theorem revert_from_earlier_render:
  "pending (follower (revertStateToFollow (render (useFollowState ''''))
      (setStateAndFollow ''hi'' (Some 1000) (useFollowState '''')))) = [] \<and>
   currentState (advanceFollow n (revertStateToFollow (render (useFollowState ''''))
      (setStateAndFollow ''hi'' (Some 1000) (useFollowState '''')))) = ''hi'' \<and>
   followState (advanceFollow n (revertStateToFollow (render (useFollowState ''''))
      (setStateAndFollow ''hi'' (Some 1000) (useFollowState '''')))) = '''' \<and>
   currentState (advanceFollow n (revertStateToFollow (render (useFollowState ''''))
      (advanceFollow 500 (setStateAndFollow ''hi'' (Some 1000) (useFollowState ''''))))) = ''hi'' \<and>
   followState (advanceFollow n (revertStateToFollow (render (useFollowState ''''))
      (advanceFollow 500 (setStateAndFollow ''hi'' (Some 1000) (useFollowState ''''))))) = ''''"
proof -
  let ?f = "useFollowState ('''' :: string)"
  have wf: "wellformed (follower ?f)"
    by (simp add: useFollowState_def wellformed_init)
  have r: "render ?f = \<lparr>seenState = '''', seenFollowState = ''''\<rparr>"
    and fs: "followState ?f = ''''"
    by (simp_all add: render_def useFollowState_def followState_def useDelayedState_def)
  have z: "advanceFollow 0 g = g" for g :: "string follow"
    by (simp add: advanceFollow_def)
  have d0: "(0::nat) < 1000" and d500: "(500::nat) < 1000"
    by simp_all
  note same = revert_after_set(3-5) [OF wf d0 d0, where r = "render ?f", unfolded z]
  note kept = revert_after_set(4-5) [OF wf d0 d500, where r = "render ?f"]
  show ?thesis
    using same kept by (simp add: r fs)
qed

end
